theory Spec2Isabelle
  imports Complex_Main
begin

section \<open>Values, errors and the environment\<close>

text \<open>
  The backend keeps its state in two module-level dictionaries
  (\<^verbatim>\<open>shared_state.py\<close>): \<^verbatim>\<open>last_decision\<close>, from device name to the last known
  state, and \<^verbatim>\<open>manual_lock\<close>, from device name to a pair of locked state and expiry
  timestamp. Values that come from outside (the language model's answer, request bodies,
  the replies of the Tasmota relays) are JSON values as Python's \<^verbatim>\<open>json.loads\<close> builds
  them.
\<close>

datatype json =
    JNull
  | JBool bool
  | JInt int
  | JFloat real
  | JNaN
  | JInf bool
  | JStr string
  | JArr "json list"
  | JObj "(string \<times> json) list"

text \<open>
  A JSON object becomes a Python dict; where a key is repeated the last occurrence wins.
\<close>

definition dict_of :: "(string \<times> json) list \<Rightarrow> (string \<rightharpoonup> json)" where
  "dict_of kvs = map_of (rev kvs)"

datatype py_error =
    ValueError
  | TypeError
  | AttributeError
  | KeyError
  | IndexError
  | OverflowError
  | RecursionError
  | JSONDecodeError
  | OracleError
  | DriverError

text \<open>
  Timestamps are the seconds of \<^verbatim>\<open>time.time()\<close>; an expiry is such a timestamp or
  \<^verbatim>\<open>float("inf")\<close>. \<open>before now e\<close> is the test \<^verbatim>\<open>now < expiry\<close>, and
  \<^verbatim>\<open>now >= expiry\<close> is its negation.
\<close>

datatype expiry = At real | Never

fun before :: "real \<Rightarrow> expiry \<Rightarrow> bool" where
  "before now (At t) = (now < t)"
| "before now Never = True"

text \<open>
  What \<^verbatim>\<open>requests.get\<close> meets at a relay: a connection failure, a reply declared as
  JSON whose body parses, one whose body does not parse (\<^verbatim>\<open>r.json()\<close> raises), or any
  other reply, of which the text is kept.
\<close>

datatype http_result =
    RequestException string
  | JsonBody json
  | InvalidJsonBody
  | TextBody string

text \<open>
  The environment of the process: the two addresses read from the environment variables
  when \<^verbatim>\<open>tasmota.py\<close> is loaded, the relays' answer to each URL, and Python's builtin
  \<^verbatim>\<open>int\<close> on a string (\<open>None\<close> where it raises \<^verbatim>\<open>ValueError\<close>), which is
  left open.
\<close>

record env =
  FAN_IP :: "string option"
  LIGHT_IP :: "string option"
  http_get :: "string \<Rightarrow> http_result"
  int_of_str :: "string \<Rightarrow> int option"

text \<open>
  Threads started with \<^verbatim>\<open>threading.Thread(...).start()\<close>: the automatic pump run
  (\<^verbatim>\<open>_run_pump\<close>, with its default duration), the run of the manual pump endpoint
  (\<^verbatim>\<open>_run\<close> in \<^verbatim>\<open>water_pump\<close>, with its seconds) and the release of a timed
  lock (\<^verbatim>\<open>_auto_release\<close> with device, desired state and minutes).
\<close>

datatype task =
    RunPump int
  | ManualRun int
  | AutoRelease string string int

text \<open>
  The state: the two dictionaries, the effector commands issued to the relays so far (device
  and power command of every call of \<^verbatim>\<open>requests.get\<close>, oldest first) and the threads
  started so far (oldest first).
\<close>

record state =
  last_decision :: "string \<rightharpoonup> json"
  manual_lock :: "string \<rightharpoonup> (string \<times> expiry)"
  sent :: "(string \<times> string) list"
  threads :: "task list"

definition initial_state :: state where
  "initial_state =
     \<lparr> last_decision = [''fan'' \<mapsto> JStr ''off'', ''light'' \<mapsto> JStr ''off'', ''pump'' \<mapsto> JStr ''off''],
       manual_lock = Map.empty,
       sent = [],
       threads = [] \<rparr>"

section \<open>Strings\<close>

text \<open>
  \<^verbatim>\<open>str.lower\<close> and \<^verbatim>\<open>str.capitalize\<close> on byte strings: only the ASCII letters
  change case.
\<close>

definition upper_letters :: string where
  "upper_letters = ''ABCDEFGHIJKLMNOPQRSTUVWXYZ''"

definition lower_letters :: string where
  "lower_letters = ''abcdefghijklmnopqrstuvwxyz''"

definition lower_char :: "char \<Rightarrow> char" where
  "lower_char c = (case map_of (zip upper_letters lower_letters) c of None \<Rightarrow> c | Some d \<Rightarrow> d)"

definition upper_char :: "char \<Rightarrow> char" where
  "upper_char c = (case map_of (zip lower_letters upper_letters) c of None \<Rightarrow> c | Some d \<Rightarrow> d)"

definition lower :: "string \<Rightarrow> string" where
  "lower s = map lower_char s"

fun capitalize :: "string \<Rightarrow> string" where
  "capitalize [] = []"
| "capitalize (c # cs) = upper_char c # map lower_char cs"

text \<open>The test \<^verbatim>\<open>k in s\<close> on two strings: \<open>k\<close> occurs in \<open>s\<close>.\<close>

fun substring :: "string \<Rightarrow> string \<Rightarrow> bool" where
  "substring k [] = (k = [])"
| "substring k (c # cs) = (take (length k) (c # cs) = k \<or> substring k cs)"

section \<open>The relay gateway (tasmota.py)\<close>

definition IP :: "env \<Rightarrow> (string \<rightharpoonup> string option)" where
  "IP e = [''fan'' \<mapsto> FAN_IP e, ''light'' \<mapsto> LIGHT_IP e]"

text \<open>
  \<^verbatim>\<open>cmd(dev, power_cmd)\<close>: raises \<^verbatim>\<open>ValueError\<close> before any request when the device
  has no address; otherwise the request is sent (and recorded in \<open>sent\<close>) and the reply
  decides the result.
\<close>

definition url_of :: "string \<Rightarrow> string \<Rightarrow> string" where
  "url_of ip power_cmd =
     ''http://'' @ ip @ ''/cm?cmnd=Power'' @ (if power_cmd \<noteq> [] then ''%20'' else []) @ power_cmd"

definition tas_cmd :: "env \<Rightarrow> string \<Rightarrow> string \<Rightarrow> state \<Rightarrow> state \<times> (py_error + json)" where
  "tas_cmd e dev power_cmd s =
     (case IP e dev of
        None \<Rightarrow> (s, Inl ValueError)
      | Some None \<Rightarrow> (s, Inl ValueError)
      | Some (Some ip) \<Rightarrow>
          if ip = [] then (s, Inl ValueError)
          else
            (let s' = s\<lparr>sent := sent s @ [(dev, power_cmd)]\<rparr> in
             case http_get e (url_of ip power_cmd) of
               RequestException msg \<Rightarrow> (s', Inr (JObj [(''error'', JStr msg)]))
             | JsonBody j \<Rightarrow> (s', Inr j)
             | InvalidJsonBody \<Rightarrow> (s', Inl JSONDecodeError)
             | TextBody t \<Rightarrow> (s', Inr (JObj [(''RAW'', JStr t)]))))"

section \<open>The pump driver (pump.py)\<close>

text \<open>
  \<^verbatim>\<open>time.sleep\<close> on an integer number of seconds: the seconds are converted to
  nanoseconds in a signed 64-bit integer, which raises \<^verbatim>\<open>OverflowError\<close> when they do
  not fit, and a negative length raises \<^verbatim>\<open>ValueError\<close>.
\<close>

definition py_sleep :: "int \<Rightarrow> py_error + unit" where
  "py_sleep secs =
     (if 2 ^ 63 - 1 < secs * 10 ^ 9 \<or> secs * 10 ^ 9 < - (2 ^ 63) then Inl OverflowError
      else if secs < 0 then Inl ValueError
      else Inr ())"

text \<open>
  \<^verbatim>\<open>blink_led\<close> switches the relay on, sleeps and switches it off. Whether the GPIO
  library raises is given from outside.
\<close>

datatype driver = Completes | Raises

definition blink_led :: "driver \<Rightarrow> int \<Rightarrow> py_error + unit" where
  "blink_led drv duration =
     (case drv of
        Raises \<Rightarrow> Inl DriverError
      | Completes \<Rightarrow> py_sleep duration)"

section \<open>The prompt (llm.py)\<close>

text \<open>
  The two templates of \<^verbatim>\<open>ChatPromptTemplate.from_messages\<close>, byte for byte in UTF-8:
  \<^verbatim>\<open>SYSTEM_PROMPT\<close>, whose three characters outside ASCII (the two curly double
  quotes and the sign for less-or-equal) are given by their bytes, and the template of the
  human message.
\<close>

definition ldq :: string where
  "ldq = [CHR 0xE2, CHR 0x80, CHR 0x9C]"

definition rdq :: string where
  "rdq = [CHR 0xE2, CHR 0x80, CHR 0x9D]"

definition leq :: string where
  "leq = [CHR 0xE2, CHR 0x89, CHR 0xA4]"

fun unlines :: "string list \<Rightarrow> string" where
  "unlines [] = []"
| "unlines (l # ls) = l @ CHR 0x0A # unlines ls"

definition SYSTEM_PROMPT :: string where
  \<open>SYSTEM_PROMPT = CHR 0x0A # unlines
     [''ROLE'',
      ''You control an indoor strawberry growbox.'',
      ''From one sensor snapshot you must decide whether each actuator is **on** or **off**.'',
      [],
      ''SENSORS (JSON keys you will receive)'',
      ''- temperature_c : float   # degrees Celsius'',
      ''- mq135_pct     : float   # gas concentration, 0-100 %'',
      ''- soil_raw      : int     # soil-moisture raw value, 0-1023'',
      ''- current_time  : string  # local 24-h clock, '' @ ldq @ ''HH:MM'' @ rdq,
      [],
      ''RULES'',
      ''1. pump  -> '' @ ldq @ ''on'' @ rdq @ '' if soil_raw < 400            # soil is too dry'',
      ''2. fan   -> '' @ ldq @ ''on'' @ rdq @ '' if temperature_c > 30 OR mq135_pct > 60'',
      ''3. light -> '' @ ldq @ ''on'' @ rdq @ '' if 06:00 '' @ leq @ '' current_time < 22:00 AND temperature_c '' @ leq @ '' 35'',
      [],
      ''OUTPUT'',
      ''Return **one** JSON object only, lowercase keys, e.g.'',
      [],
      ''{'',
      ''  "fan":   "on",'',
      ''  "light": "off",'',
      ''  "pump":  "on"'',
      ''}'',
      [],
      ''No extra keys, no units, no comments.'',
      ''Plant safety is your top priority.'']\<close>

definition HUMAN_PROMPT :: string where
  "HUMAN_PROMPT = ''Readings:'' @ CHR 0x0A # ''{readings_json}''"

text \<open>
  The templates are format strings of Python's \<^verbatim>\<open>str.format\<close> kind, filled in by
  \<^verbatim>\<open>string.Formatter.vformat\<close> with keyword arguments only. The scanner below follows
  the parser of the format string one character at a time: text, a doubled brace, the name
  of a replacement field (with an index in brackets), a conversion after \<^verbatim>\<open>!\<close>, and a
  format specification after \<^verbatim>\<open>:\<close> up to the matching brace. A malformed field raises
  \<^verbatim>\<open>ValueError\<close>. At the end of each field its name, up to the first dot or bracket,
  is looked up: an empty or numeric name is positional and raises \<^verbatim>\<open>IndexError\<close> (there
  are no positional arguments), any other name that is not among the keywords raises
  \<^verbatim>\<open>KeyError\<close>. A field that is found is filled in without an exception when it is
  the bare name. The scanner stops without a verdict where the outcome depends on more
  than it follows: a field that is found and has an attribute, an index, a conversion or
  a format specification, a number of more than nine digits, and a name with a byte
  outside ASCII.
\<close>

datatype stop = Raise py_error | Unknown

datatype fmode =
    Text
  | Opened
  | Closed
  | Name string
  | Index string
  | Conv string
  | Converted string
  | Spec string bool nat

definition digits :: string where
  "digits = ''0123456789''"

definition lookup :: "string list \<Rightarrow> string \<Rightarrow> bool \<Rightarrow> stop option" where
  "lookup keys name bare =
     (let first = takeWhile (\<lambda>c. c \<noteq> CHR ''.'' \<and> c \<noteq> CHR ''['') name
      in if name = [] then Some (Raise IndexError)
         else if \<not> list_all (\<lambda>c. (of_char c :: nat) < 128) first then Some Unknown
         else if first \<noteq> [] \<and> list_all (\<lambda>c. c \<in> set digits) first then
           (if length first \<le> 9 then Some (Raise IndexError) else Some Unknown)
         else if first \<notin> set keys then Some (Raise KeyError)
         else if bare \<and> first = name then None
         else Some Unknown)"

definition field_end :: "string list \<Rightarrow> string \<Rightarrow> bool \<Rightarrow> stop + fmode" where
  "field_end keys name bare =
     (case lookup keys name bare of Some st \<Rightarrow> Inl st | None \<Rightarrow> Inr Text)"

definition name_char :: "string list \<Rightarrow> string \<Rightarrow> char \<Rightarrow> stop + fmode" where
  "name_char keys acc c =
     (if c = CHR ''{'' then Inl (Raise ValueError)
      else if c = CHR ''['' then Inr (Index (c # acc))
      else if c = CHR ''}'' then field_end keys (rev acc) True
      else if c = CHR '':'' then Inr (Spec (rev acc) True 1)
      else if c = CHR ''!'' then Inr (Conv (rev acc))
      else Inr (Name (c # acc)))"

fun fstep :: "string list \<Rightarrow> fmode \<Rightarrow> char \<Rightarrow> stop + fmode" where
  "fstep keys Text c =
     (if c = CHR ''{'' then Inr Opened else if c = CHR ''}'' then Inr Closed else Inr Text)"
| "fstep keys Opened c = (if c = CHR ''{'' then Inr Text else name_char keys [] c)"
| "fstep keys Closed c = (if c = CHR ''}'' then Inr Text else Inl (Raise ValueError))"
| "fstep keys (Name acc) c = name_char keys acc c"
| "fstep keys (Index acc) c = (if c = CHR '']'' then Inr (Name (c # acc)) else Inr (Index (c # acc)))"
| "fstep keys (Conv name) c = Inr (Converted name)"
| "fstep keys (Converted name) c =
     (if c = CHR ''}'' then field_end keys name False
      else if c = CHR '':'' then Inr (Spec name False 1)
      else Inl (Raise ValueError))"
| "fstep keys (Spec name bare depth) c =
     (if c = CHR ''{'' then Inr (Spec name False (Suc depth))
      else if c = CHR ''}'' then
        (if depth = 1 then field_end keys name bare else Inr (Spec name False (depth - 1)))
      else Inr (Spec name False depth))"

fun scan :: "string list \<Rightarrow> fmode \<Rightarrow> string \<Rightarrow> stop option" where
  "scan keys mode [] = (if mode = Text then None else Some (Raise ValueError))"
| "scan keys mode (c # cs) =
     (case fstep keys mode c of Inl st \<Rightarrow> Some st | Inr mode' \<Rightarrow> scan keys mode' cs)"

text \<open>
  \<^verbatim>\<open>prompt.format_messages(readings_json=...)\<close>: the templates are filled in one after
  the other with the one keyword \<^verbatim>\<open>readings_json\<close>; the result is the first stop, if
  any.
\<close>

fun format_messages :: "string list \<Rightarrow> string list \<Rightarrow> stop option" where
  "format_messages [] keys = None"
| "format_messages (t # ts) keys =
     (case scan keys Text t of Some st \<Rightarrow> Some st | None \<Rightarrow> format_messages ts keys)"

definition prompt :: "string list" where
  "prompt = [SYSTEM_PROMPT, HUMAN_PROMPT]"

section \<open>The control loop's decision step (llm.py)\<close>

text \<open>
  \<^verbatim>\<open>_run_pump\<close>, the thread of an automatic pump run: the stored pump state is set to
  on, the driver runs, and the stored state is set to off. An exception of the driver leaves
  the function at once. The two halves are given separately, since the thread sleeps in
  between while other threads run.
\<close>

definition set_pump :: "string \<Rightarrow> state \<Rightarrow> state" where
  "set_pump v s = s\<lparr>last_decision := (last_decision s)(''pump'' \<mapsto> JStr v)\<rparr>"

definition run_pump_begin :: "state \<Rightarrow> state" where
  "run_pump_begin s = set_pump ''on'' s"

definition run_pump_end :: "driver \<Rightarrow> int \<Rightarrow> state \<Rightarrow> state \<times> (py_error + unit)" where
  "run_pump_end drv duration s =
     (case blink_led drv duration of
        Inl err \<Rightarrow> (s, Inl err)
      | Inr u \<Rightarrow> (set_pump ''off'' s, Inr ()))"

definition run_pump :: "driver \<Rightarrow> int \<Rightarrow> state \<Rightarrow> state \<times> (py_error + unit)" where
  "run_pump drv duration s = run_pump_end drv duration (run_pump_begin s)"

definition PUMP_DURATION :: int where
  "PUMP_DURATION = 2"

text \<open>
  The test \<^verbatim>\<open>k in decision\<close> on whatever \<^verbatim>\<open>json.loads\<close> returned: key membership
  for an object, element membership for an array, substring for a string, and
  \<^verbatim>\<open>TypeError\<close> for the values that are not containers.
\<close>

fun py_in :: "string \<Rightarrow> json \<Rightarrow> py_error + bool" where
  "py_in k (JObj kvs) = Inr (k \<in> fst ` set kvs)"
| "py_in k (JArr xs) = Inr (JStr k \<in> set xs)"
| "py_in k (JStr t) = Inr (substring k t)"
| "py_in k v = Inl TypeError"

text \<open>
  \<^verbatim>\<open>all(k in decision for k in ("fan", "light", "pump"))\<close>: the keys are tried in
  order and the first miss ends the test.
\<close>

fun all_in :: "string list \<Rightarrow> json \<Rightarrow> py_error + bool" where
  "all_in [] d = Inr True"
| "all_in (k # ks) d =
     (case py_in k d of
        Inl err \<Rightarrow> Inl err
      | Inr False \<Rightarrow> Inr False
      | Inr True \<Rightarrow> all_in ks d)"

text \<open>
  \<^verbatim>\<open>manual_lock.get(dev, (None, 0))\<close> and the truth value of the locked state
  (\<^verbatim>\<open>None\<close> and the empty string are false).
\<close>

definition lock_get :: "(string \<rightharpoonup> string \<times> expiry) \<Rightarrow> string \<Rightarrow> string option \<times> expiry" where
  "lock_get ml dev = (case ml dev of None \<Rightarrow> (None, At 0) | Some (ls, ex) \<Rightarrow> (Some ls, ex))"

fun truthy :: "string option \<Rightarrow> bool" where
  "truthy None = False"
| "truthy (Some v) = (v \<noteq> [])"

text \<open>
  The loop \<^verbatim>\<open>for dev in ("fan", "light")\<close> of \<^verbatim>\<open>decide_actuators\<close>, on the state and
  the dictionary \<^verbatim>\<open>final_decision\<close>. An exception (a missing key, or one raised by
  \<^verbatim>\<open>tas_cmd\<close>) ends the loop and the function.
\<close>

fun fan_light_loop ::
  "env \<Rightarrow> real \<Rightarrow> (string \<rightharpoonup> json) \<Rightarrow> string list \<Rightarrow> state \<Rightarrow> (string \<rightharpoonup> json)
     \<Rightarrow> state \<times> (py_error + (string \<rightharpoonup> json))" where
  "fan_light_loop e now decision [] s final = (s, Inr final)"
| "fan_light_loop e now decision (dev # devs) s final =
     (case lock_get (manual_lock s) dev of (locked_state, expiry) \<Rightarrow>
        if truthy locked_state \<and> before now expiry then
          fan_light_loop e now decision devs s
            (case locked_state of None \<Rightarrow> final | Some ls \<Rightarrow> final(dev \<mapsto> JStr ls))
        else
          (case decision dev of
             None \<Rightarrow> (s, Inl KeyError)
           | Some v \<Rightarrow>
               (case tas_cmd e dev (if v = JStr ''on'' then ''On'' else ''Off'') s of
                  (s1, Inl err) \<Rightarrow> (s1, Inl err)
                | (s1, Inr reply) \<Rightarrow>
                    fan_light_loop e now decision devs
                      (if dev \<in> dom (manual_lock s1) \<and> \<not> before now expiry
                       then s1\<lparr>manual_lock := (manual_lock s1)(dev := None)\<rparr>
                       else s1)
                      final)))"

text \<open>
  The pump part and the final \<^verbatim>\<open>last_decision.update(final_decision)\<close>. Starting the
  thread adds it to \<open>threads\<close>.
\<close>

definition pump_step ::
  "(string \<rightharpoonup> json) \<Rightarrow> state \<Rightarrow> (string \<rightharpoonup> json) \<Rightarrow> state \<times> (py_error + (string \<rightharpoonup> json))" where
  "pump_step decision s final =
     (case decision ''pump'' of
        None \<Rightarrow> (s, Inl KeyError)
      | Some p \<Rightarrow>
          (let (s1, final1) =
                 (if p = JStr ''on'' \<and> last_decision s ''pump'' \<noteq> Some (JStr ''on'')
                  then (s\<lparr>threads := threads s @ [RunPump PUMP_DURATION]\<rparr>, final(''pump'' \<mapsto> JStr ''on''))
                  else if p = JStr ''off'' then (s, final(''pump'' \<mapsto> JStr ''off''))
                  else (s, final))
           in (s1\<lparr>last_decision := last_decision s1 ++ final1\<rparr>, Inr final1)))"

text \<open>
  What the language model does in a tick, given from outside: \<^verbatim>\<open>llm.invoke\<close> raises,
  or it returns and \<^verbatim>\<open>json.loads(response.content)\<close> raises (\<^verbatim>\<open>JSONDecodeError\<close>
  for text that is not JSON; \<^verbatim>\<open>RecursionError\<close>, \<^verbatim>\<open>ValueError\<close> or
  \<^verbatim>\<open>TypeError\<close> in other cases), or the content is loaded.
\<close>

datatype llm_outcome =
    InvokeRaises
  | LoadsRaises py_error
  | Loaded json

text \<open>
  The lines of \<^verbatim>\<open>decide_actuators\<close> after the prompt has been formatted (llm.py, lines
  94 to 130); \<open>now\<close> is \<^verbatim>\<open>time.time()\<close>. Only \<^verbatim>\<open>JSONDecodeError\<close> is caught. Only
  a dict has both \<^verbatim>\<open>copy\<close> and string keys: an array fails at the first
  \<^verbatim>\<open>decision[dev]\<close> or \<^verbatim>\<open>final_decision[dev] = ...\<close>, a string at \<^verbatim>\<open>copy\<close>,
  both before anything is sent or stored.
\<close>

definition decide_after_prompt ::
  "env \<Rightarrow> real \<Rightarrow> llm_outcome \<Rightarrow> state \<Rightarrow> state \<times> (py_error + (string \<rightharpoonup> json))" where
  "decide_after_prompt e now orc s =
     (case orc of
        InvokeRaises \<Rightarrow> (s, Inl OracleError)
      | LoadsRaises err \<Rightarrow>
          if err = JSONDecodeError then (s, Inr (last_decision s)) else (s, Inl err)
      | Loaded d \<Rightarrow>
          (case all_in [''fan'', ''light'', ''pump''] d of
             Inl err \<Rightarrow> (s, Inl err)
           | Inr False \<Rightarrow> (s, Inr (last_decision s))
           | Inr True \<Rightarrow>
               (case d of
                  JObj kvs \<Rightarrow>
                    (let decision = dict_of kvs in
                     case fan_light_loop e now decision [''fan'', ''light''] s decision of
                       (s1, Inl err) \<Rightarrow> (s1, Inl err)
                     | (s1, Inr final) \<Rightarrow> pump_step decision s1 final)
                | JArr xs \<Rightarrow> (s, Inl TypeError)
                | _ \<Rightarrow> (s, Inl AttributeError))))"

text \<open>
  \<^verbatim>\<open>decide_actuators\<close>: the time of day is added to the readings, which only feed the
  prompt; \<^verbatim>\<open>prompt.format_messages\<close> fills in the templates, and an exception it raises
  leaves the function before the language model is called or anything is read or written.
  The templates are the two constants above, for which the scanner gives a verdict.
\<close>

definition decide_actuators ::
  "env \<Rightarrow> real \<Rightarrow> llm_outcome \<Rightarrow> state \<Rightarrow> state \<times> (py_error + (string \<rightharpoonup> json))" where
  "decide_actuators e now orc s =
     (case format_messages prompt [''readings_json''] of
        Some (Raise err) \<Rightarrow> (s, Inl err)
      | _ \<Rightarrow> decide_after_prompt e now orc s)"

section \<open>The manual endpoints (main.py)\<close>

text \<open>
  Python's \<^verbatim>\<open>int(v)\<close> on a JSON value: integers are kept, booleans are 0 and 1, a
  float is truncated towards zero, \<^verbatim>\<open>NaN\<close> raises \<^verbatim>\<open>ValueError\<close> and an infinity
  \<^verbatim>\<open>OverflowError\<close>, a string is parsed, and \<^verbatim>\<open>None\<close>, lists and dicts raise
  \<^verbatim>\<open>TypeError\<close>.
\<close>

fun py_int :: "env \<Rightarrow> json \<Rightarrow> py_error + int" where
  "py_int e (JInt n) = Inr n"
| "py_int e (JBool b) = Inr (if b then 1 else 0)"
| "py_int e (JFloat r) = Inr (if 0 \<le> r then \<lfloor>r\<rfloor> else \<lceil>r\<rceil>)"
| "py_int e JNaN = Inl ValueError"
| "py_int e (JInf positive) = Inl OverflowError"
| "py_int e (JStr t) = (case int_of_str e t of None \<Rightarrow> Inl ValueError | Some n \<Rightarrow> Inr n)"
| "py_int e JNull = Inl TypeError"
| "py_int e (JArr xs) = Inl TypeError"
| "py_int e (JObj kvs) = Inl TypeError"

text \<open>
  \<^verbatim>\<open>int(payload.get("duration", dflt)) if payload else other\<close>: the request body is
  absent (\<open>None\<close>) or a JSON object; \<^verbatim>\<open>None\<close> and the empty dict are both false.
\<close>

definition duration_of :: "env \<Rightarrow> (string \<times> json) list option \<Rightarrow> int \<Rightarrow> int \<Rightarrow> py_error + int" where
  "duration_of e payload dflt other =
     (case payload of
        None \<Rightarrow> Inr other
      | Some kvs \<Rightarrow>
          if kvs = [] then Inr other
          else py_int e (case dict_of kvs ''duration'' of None \<Rightarrow> JInt dflt | Some v \<Rightarrow> v))"

text \<open>
  \<^verbatim>\<open>_auto_release\<close>: \<^verbatim>\<open>time.sleep(minutes * 60)\<close>, then the relay command, the
  removal of the device's lock and the store. The state \<open>s\<close> is the one the thread finds
  when it wakes up; a sleep that raises ends the thread at once.
\<close>

definition auto_release :: "env \<Rightarrow> string \<Rightarrow> string \<Rightarrow> int \<Rightarrow> state \<Rightarrow> state \<times> (py_error + unit)" where
  "auto_release e dev desired minutes s =
     (case py_sleep (minutes * 60) of
        Inl err \<Rightarrow> (s, Inl err)
      | Inr u \<Rightarrow>
          (case tas_cmd e dev (capitalize desired) s of
             (s1, Inl err) \<Rightarrow> (s1, Inl err)
           | (s1, Inr reply) \<Rightarrow>
               (s1\<lparr>manual_lock := (manual_lock s1)(dev := None),
                   last_decision := (last_decision s1)(dev \<mapsto> JStr desired)\<rparr>, Inr ())))"

text \<open>
  An integer is converted to a float for \<^verbatim>\<open>time.time() + duration * 60\<close>; the
  conversion raises \<^verbatim>\<open>OverflowError\<close> from \<open>2^1024 - 2^970\<close> on (the rounding of the
  sum itself is not modelled).
\<close>

definition float_of_int :: "int \<Rightarrow> py_error + real" where
  "float_of_int n = (if 2 ^ 1024 - 2 ^ 970 \<le> \<bar>n\<bar> then Inl OverflowError else Inr (real_of_int n))"

text \<open>
  \<^verbatim>\<open>toggle_device\<close>, the handler of \<^verbatim>\<open>POST /actuators/{dev}/{action}\<close>; \<open>now\<close> is
  the \<^verbatim>\<open>time.time()\<close> read for the expiry.
\<close>

definition toggle_device ::
  "env \<Rightarrow> real \<Rightarrow> string \<Rightarrow> string \<Rightarrow> (string \<times> json) list option \<Rightarrow> state
     \<Rightarrow> state \<times> (py_error + json)" where
  "toggle_device e now dev action0 payload s =
     (let action = lower action0 in
      if action \<notin> {''on'', ''off'', ''toggle''}
      then (s, Inr (JObj [(''error'', JStr ''action must be on/off/toggle'')]))
      else
        (let power_cmd = capitalize action in
         case duration_of e payload 0 0 of
           Inl err \<Rightarrow> (s, Inl err)
         | Inr duration \<Rightarrow>
             (case tas_cmd e dev power_cmd s of
                (s1, Inl err) \<Rightarrow> (s1, Inl err)
              | (s1, Inr result) \<Rightarrow>
                  if dev \<in> {''fan'', ''light''} then
                    (let st = (if power_cmd = ''On'' then ''on'' else ''off'');
                         s2 = s1\<lparr>last_decision := (last_decision s1)(dev \<mapsto> JStr st)\<rparr>
                     in case (if duration = 0 then Inr Never
                              else (case float_of_int (duration * 60) of
                                      Inl err \<Rightarrow> Inl err
                                    | Inr d \<Rightarrow> Inr (At (now + d)))) of
                          Inl err \<Rightarrow> (s2, Inl err)
                        | Inr expiry \<Rightarrow>
                            (let s3 = s2\<lparr>manual_lock := (manual_lock s2)(dev \<mapsto> (st, expiry))\<rparr>;
                                 s4 = (if duration > 0
                                       then s3\<lparr>threads := threads s3 @
                                              [AutoRelease dev (if st = ''on'' then ''off'' else ''on'') duration]\<rparr>
                                       else s3)
                             in (s4, Inr result)))
                  else (s1, Inr result))))"

text \<open>
  \<^verbatim>\<open>water_pump\<close>, the handler of the manual pump endpoint, and its thread \<^verbatim>\<open>_run\<close>,
  whose \<^verbatim>\<open>finally\<close> stores off whether or not the driver raised; the exception caught
  and logged is returned.
\<close>

definition water_pump ::
  "env \<Rightarrow> (string \<times> json) list option \<Rightarrow> state \<Rightarrow> state \<times> (py_error + json)" where
  "water_pump e payload s =
     (case duration_of e payload 5 2 of
        Inl err \<Rightarrow> (s, Inl err)
      | Inr seconds \<Rightarrow>
          (s\<lparr>threads := threads s @ [ManualRun seconds]\<rparr>,
           Inr (JObj [(''status'', JStr ''watering''), (''duration'', JInt seconds)])))"

definition manual_run_begin :: "state \<Rightarrow> state" where
  "manual_run_begin s = set_pump ''on'' s"

definition manual_run_end :: "driver \<Rightarrow> int \<Rightarrow> state \<Rightarrow> state \<times> py_error option" where
  "manual_run_end drv seconds s =
     (case blink_led drv seconds of
        Inl err \<Rightarrow> (set_pump ''off'' s, Some err)
      | Inr u \<Rightarrow> (set_pump ''off'' s, None))"

definition manual_run :: "driver \<Rightarrow> int \<Rightarrow> state \<Rightarrow> state \<times> py_error option" where
  "manual_run drv seconds s = manual_run_end drv seconds (manual_run_begin s)"

text \<open>
  The body of a started thread, by its target: the automatic pump run, the manual pump
  run (whose exception is caught, so that the thread ends normally) and the release.
\<close>

fun run_thread :: "env \<Rightarrow> driver \<Rightarrow> task \<Rightarrow> state \<Rightarrow> state \<times> (py_error + unit)" where
  "run_thread e drv (RunPump duration) s = run_pump drv duration s"
| "run_thread e drv (ManualRun seconds) s = (fst (manual_run drv seconds s), Inr ())"
| "run_thread e drv (AutoRelease dev desired minutes) s = auto_release e dev desired minutes s"

subsection \<open>Routing\<close>

text \<open>
  The two \<^verbatim>\<open>POST\<close> routes under \<^verbatim>\<open>/actuators\<close>, in the order in which main.py
  declares them. A path is the list of its segments; a parameter of a route matches any
  segment that is not empty. The router hands a request to the first route that matches.
\<close>

datatype handler = ToggleDevice | WaterPump

datatype seg = Fixed string | Param

definition post_routes :: "(seg list \<times> handler) list" where
  "post_routes =
     [([Fixed ''actuators'', Param, Param], ToggleDevice),
      ([Fixed ''actuators'', Fixed ''pump'', Fixed ''on''], WaterPump)]"

fun seg_match :: "seg \<Rightarrow> string \<Rightarrow> bool" where
  "seg_match (Fixed l) p = (p = l)"
| "seg_match Param p = (p \<noteq> [])"

fun find_route :: "(seg list \<times> handler) list \<Rightarrow> string list \<Rightarrow> (seg list \<times> handler) option" where
  "find_route [] path = None"
| "find_route (r # rs) path =
     (if list_all2 seg_match (fst r) path then Some r else find_route rs path)"

definition path_params :: "seg list \<Rightarrow> string list \<Rightarrow> string list" where
  "path_params segs path = map snd (filter (\<lambda>(sg, p). sg = Param) (zip segs path))"

text \<open>
  A \<^verbatim>\<open>POST\<close> request: the handler of the first matching route is called with the
  parameters of the path and the body; no route gives the reply of status 404.
\<close>

definition post ::
  "env \<Rightarrow> real \<Rightarrow> string list \<Rightarrow> (string \<times> json) list option \<Rightarrow> state \<Rightarrow> state \<times> (py_error + json)" where
  "post e now path payload s =
     (case find_route post_routes path of
        None \<Rightarrow> (s, Inr (JObj [(''detail'', JStr ''Not Found'')]))
      | Some (segs, h) \<Rightarrow>
          (case h of
             WaterPump \<Rightarrow> water_pump e payload s
           | ToggleDevice \<Rightarrow>
               (case path_params segs path of
                  [dev, action] \<Rightarrow> toggle_device e now dev action payload s
                | _ \<Rightarrow> (s, Inl TypeError))))"

section \<open>Observations and conditions used in the statements\<close>

text \<open>
  The commands sent to one device, the state with one device's lock entry taken out, and
  the two readings of a lock entry at a time \<open>now\<close>: active (a true locked state and
  \<^verbatim>\<open>now < expiry\<close>) and expired (\<^verbatim>\<open>now >= expiry\<close>).
\<close>

definition to_dev :: "string \<Rightarrow> (string \<times> string) list \<Rightarrow> (string \<times> string) list" where
  "to_dev dev cs = filter (\<lambda>p. fst p = dev) cs"

definition without_lock :: "string \<Rightarrow> state \<Rightarrow> state" where
  "without_lock dev s = s\<lparr>manual_lock := (manual_lock s)(dev := None)\<rparr>"

definition lock_active :: "real \<Rightarrow> state \<Rightarrow> string \<Rightarrow> bool" where
  "lock_active now s dev =
     (case manual_lock s dev of None \<Rightarrow> False | Some (ls, ex) \<Rightarrow> ls \<noteq> [] \<and> before now ex)"

definition lock_expired :: "real \<Rightarrow> state \<Rightarrow> string \<Rightarrow> bool" where
  "lock_expired now s dev =
     (case manual_lock s dev of None \<Rightarrow> False | Some (ls, ex) \<Rightarrow> \<not> before now ex)"

text \<open>The power command that \<^verbatim>\<open>decide_actuators\<close> derives from a decided value.\<close>

definition power_of :: "json \<Rightarrow> string" where
  "power_of v = (if v = JStr ''on'' then ''On'' else ''Off'')"

text \<open>
  A relay answers a command when the device has an address and the reply is not a JSON
  reply with an unreadable body, that is, when \<^verbatim>\<open>tas_cmd\<close> returns.
\<close>

definition relay_answers :: "env \<Rightarrow> string \<Rightarrow> string \<Rightarrow> bool" where
  "relay_answers e dev power_cmd =
     (case IP e dev of
        Some (Some ip) \<Rightarrow> ip \<noteq> [] \<and> http_get e (url_of ip power_cmd) \<noteq> InvalidJsonBody
      | _ \<Rightarrow> False)"

definition relays_answer :: "env \<Rightarrow> bool" where
  "relays_answer e =
     (\<forall>dev \<in> {''fan'', ''light''}. \<forall>c \<in> {''On'', ''Off''}. relay_answers e dev c)"

subsection \<open>Sample inputs\<close>

text \<open>
  An environment with both relays configured and answering in plain text, an answer of the
  language model with the three keys, and the state after \<^verbatim>\<open>POST /actuators/fan/on\<close>
  with a duration of five minutes at time 0.
\<close>

definition test_env :: env where
  "test_env = \<lparr> FAN_IP = Some ''10.0.0.2'', LIGHT_IP = Some ''10.0.0.3'',
      http_get = (\<lambda>url. TextBody ''ok''), int_of_str = (\<lambda>t. None) \<rparr>"

definition tick :: "string \<Rightarrow> string \<Rightarrow> string \<Rightarrow> json" where
  "tick f l p = JObj [(''fan'', JStr f), (''light'', JStr l), (''pump'', JStr p)]"

definition fan_locked :: state where
  "fan_locked =
     fst (post test_env 0 [''actuators'', ''fan'', ''on''] (Some [(''duration'', JInt 5)])
            initial_state)"

text \<open>
  The state one minute later, after a second \<^verbatim>\<open>POST /actuators/fan/on\<close> without a
  body; a state in which a pump run is in progress (the thread \<^verbatim>\<open>_run_pump\<close> has been
  started and has stored on); and an environment whose relays report the power state
  \<^verbatim>\<open>ON\<close>.
\<close>

definition superseded :: state where
  "superseded = fst (post test_env 60 [''actuators'', ''fan'', ''on''] None fan_locked)"

definition pump_running :: state where
  "pump_running = run_pump_begin (initial_state\<lparr>threads := [RunPump PUMP_DURATION]\<rparr>)"

definition test_env_on :: env where
  "test_env_on = test_env\<lparr>http_get := (\<lambda>url. JsonBody (JObj [(''POWER'', JStr ''ON'')]))\<rparr>"

section \<open>The relay gateway and the loop over fan and light\<close>

lemmas model_defs =
  decide_after_prompt_def fan_light_loop.simps(2) lock_get_def tas_cmd_def IP_def url_of_def
  pump_step_def dict_of_def toggle_device_def duration_of_def float_of_int_def
  lower_def lower_char_def upper_char_def upper_letters_def lower_letters_def
  test_env_def initial_state_def to_dev_def tick_def fan_locked_def Let_def PUMP_DURATION_def
  relays_answer_def relay_answers_def
  pump_running_def superseded_def test_env_on_def water_pump_def manual_run_begin_def
  manual_run_end_def manual_run_def run_pump_def run_pump_begin_def run_pump_end_def set_pump_def
  blink_led_def py_sleep_def auto_release_def lock_active_def lock_expired_def power_of_def
  without_lock_def post_def post_routes_def path_params_def

lemma all_in_obj: "all_in ks (JObj kvs) = Inr (set ks \<subseteq> fst ` set kvs)"
  by (induction ks) (auto split: bool.splits)

lemma dom_dict_of: "dom (dict_of kvs) = fst ` set kvs"
  by (simp add: dict_of_def dom_map_of_conv_image_fst)

lemma tas_cmd_shape:
  "(\<exists>err. tas_cmd e dev c s = (s, Inl err)) \<or>
   (\<exists>r. tas_cmd e dev c s = (s\<lparr>sent := sent s @ [(dev, c)]\<rparr>, r))"
  by (simp add: tas_cmd_def Let_def split: option.splits http_result.splits)

lemma tas_cmd_answers:
  assumes "relay_answers e dev c"
  shows "\<exists>j. tas_cmd e dev c s = (s\<lparr>sent := sent s @ [(dev, c)]\<rparr>, Inr j)"
  using assms unfolding tas_cmd_def relay_answers_def
  by (simp add: Let_def split: option.splits http_result.splits)

lemma tas_cmd_Inr:
  assumes "tas_cmd e dev c s = (s1, Inr j)"
  shows "s1 = s\<lparr>sent := sent s @ [(dev, c)]\<rparr>"
  using assms tas_cmd_shape[of e dev c s] by auto

lemma tas_cmd_frame:
  assumes "tas_cmd e dev c s = (s1, r)"
  shows "last_decision s1 = last_decision s \<and> manual_lock s1 = manual_lock s \<and> threads s1 = threads s
    \<and> (d \<noteq> dev \<longrightarrow> to_dev d (sent s1) = to_dev d (sent s))"
  using assms tas_cmd_shape[of e dev c s] by (auto simp: to_dev_def)

lemma tas_cmd_without_lock:
  assumes "tas_cmd e dev c s = (s1, r)"
  shows "tas_cmd e dev c (without_lock d s) = (without_lock d s1, r)"
  using assms
  by (auto simp: tas_cmd_def without_lock_def Let_def split: option.splits http_result.splits if_splits)

lemma loop_locked:
  assumes "manual_lock s dev = Some (ls, ex)" "ls \<noteq> []" "before now ex"
  shows "fan_light_loop e now d (dev # devs) s final =
         fan_light_loop e now d devs s (final(dev \<mapsto> JStr ls))"
  using assms by (simp add: lock_get_def)

lemma loop_unlocked:
  assumes "\<not> lock_active now s dev"
  shows "fan_light_loop e now d (dev # devs) s final =
         (case d dev of
            None \<Rightarrow> (s, Inl KeyError)
          | Some v \<Rightarrow>
              (case tas_cmd e dev (power_of v) s of
                 (s1, Inl err) \<Rightarrow> (s1, Inl err)
               | (s1, Inr reply) \<Rightarrow>
                   fan_light_loop e now d devs
                     (if lock_expired now s dev then without_lock dev s1 else s1) final))"
proof (cases "d dev")
  case None
  with assms show ?thesis
    by (auto simp: lock_get_def lock_active_def split: option.splits)
next
  case (Some v)
  obtain s1 r where t: "tas_cmd e dev (power_of v) s = (s1, r)"
    by (cases "tas_cmd e dev (power_of v) s")
  from t have ml: "manual_lock s1 = manual_lock s"
    using tas_cmd_frame by blast
  show ?thesis
  proof (cases "manual_lock s dev")
    case None
    with Some t ml show ?thesis
      by (simp add: lock_get_def lock_expired_def power_of_def domIff split: sum.splits)
  next
    case (Some a)
    obtain ls ex where a: "a = (ls, ex)" by (cases a)
    with Some \<open>d dev = Some v\<close> t ml assms show ?thesis
      by (auto simp: lock_get_def lock_expired_def lock_active_def power_of_def without_lock_def domIff
               split: sum.splits)
  qed
qed

declare fan_light_loop.simps(2) [simp del]

lemma loop_Cons_cases:
  assumes "fan_light_loop e now d (dev # devs) s final = (s', r)"
  obtains
    (locked) ls ex where "manual_lock s dev = Some (ls, ex)" "ls \<noteq> []" "before now ex"
      "fan_light_loop e now d devs s (final(dev \<mapsto> JStr ls)) = (s', r)"
  | (nokey) "\<not> lock_active now s dev" "d dev = None" "s' = s" "r = Inl KeyError"
  | (raised) v err where "\<not> lock_active now s dev" "d dev = Some v"
      "tas_cmd e dev (power_of v) s = (s', Inl err)" "r = Inl err"
  | (stepped) v j s1 where "\<not> lock_active now s dev" "d dev = Some v"
      "tas_cmd e dev (power_of v) s = (s1, Inr j)"
      "s1 = s\<lparr>sent := sent s @ [(dev, power_of v)]\<rparr>"
      "fan_light_loop e now d devs (if lock_expired now s dev then without_lock dev s1 else s1) final = (s', r)"
proof (cases "lock_active now s dev")
  case True
  then obtain ls ex where lk: "manual_lock s dev = Some (ls, ex)" "ls \<noteq> []" "before now ex"
    by (auto simp: lock_active_def split: option.splits)
  from assms have "fan_light_loop e now d devs s (final(dev \<mapsto> JStr ls)) = (s', r)"
    by (simp only: loop_locked[OF lk])
  with lk show ?thesis by (rule locked)
next
  case False
  note eq = assms[unfolded loop_unlocked[OF False]]
  show ?thesis
  proof (cases "d dev")
    case None
    with eq have "s' = s" "r = Inl KeyError" by simp_all
    with False None show ?thesis by (rule nokey)
  next
    case (Some v)
    obtain s1 r1 where t: "tas_cmd e dev (power_of v) s = (s1, r1)"
      by (cases "tas_cmd e dev (power_of v) s")
    show ?thesis
    proof (cases r1)
      case (Inl err)
      with eq Some t have "s' = s1" "r = Inl err" by simp_all
      with False Some t Inl show ?thesis by (auto intro: raised)
    next
      case (Inr j)
      with eq Some t
      have "fan_light_loop e now d devs (if lock_expired now s dev then without_lock dev s1 else s1) final = (s', r)"
        by simp
      moreover from t Inr have "s1 = s\<lparr>sent := sent s @ [(dev, power_of v)]\<rparr>"
        using tas_cmd_Inr by blast
      ultimately show ?thesis using False Some t Inr by (auto intro: stepped)
    qed
  qed
qed

lemma loop_frame:
  assumes "fan_light_loop e now d devs s final = (s', r)"
  shows "last_decision s' = last_decision s \<and> threads s' = threads s"
  using assms
proof (induction devs arbitrary: s final)
  case Nil
  then show ?case by simp
next
  case (Cons dev devs)
  from Cons.prems show ?case
  proof (cases rule: loop_Cons_cases)
    case (locked ls ex)
    from Cons.IH[OF locked(4)] show ?thesis .
  next
    case nokey
    then show ?thesis by simp
  next
    case (raised v err)
    then show ?thesis using tas_cmd_frame by blast
  next
    case (stepped v j s1)
    from Cons.IH[OF stepped(5)] stepped(4) show ?thesis by (simp add: without_lock_def)
  qed
qed

text \<open>A device whose lock is active is skipped: no command, the lock stays, and the locked state
  is the effective one.\<close>

lemma loop_locked_dev:
  assumes "fan_light_loop e now d devs s final = (s', r)"
    and "manual_lock s x = Some (ls, ex)" "ls \<noteq> []" "before now ex"
  shows "manual_lock s' x = Some (ls, ex) \<and> to_dev x (sent s') = to_dev x (sent s) \<and>
         (\<forall>f. r = Inr f \<longrightarrow> f x = (if x \<in> set devs then Some (JStr ls) else final x))"
  using assms
proof (induction devs arbitrary: s final)
  case Nil
  then show ?case by auto
next
  case (Cons dev devs)
  have act: "lock_active now s x"
    using Cons.prems(2-4) by (simp add: lock_active_def)
  from Cons.prems(1) show ?case
  proof (cases rule: loop_Cons_cases)
    case (locked ls' ex')
    from Cons.IH[OF locked(4) Cons.prems(2-4)] locked(1) Cons.prems(2) show ?thesis by auto
  next
    case nokey
    with Cons.prems(2) show ?thesis by simp
  next
    case (raised v err)
    with act have "x \<noteq> dev" by auto
    with raised Cons.prems(2) show ?thesis using tas_cmd_frame[OF raised(3), of x] by simp
  next
    case (stepped v j s1)
    with act have ne: "x \<noteq> dev" by auto
    let ?s2 = "if lock_expired now s dev then without_lock dev s1 else s1"
    from ne stepped(4) Cons.prems(2) have ml: "manual_lock ?s2 x = Some (ls, ex)"
      by (simp add: without_lock_def)
    from ne stepped(4) have sn: "to_dev x (sent ?s2) = to_dev x (sent s)"
      by (simp add: without_lock_def to_dev_def)
    from Cons.IH[OF stepped(5) ml Cons.prems(3,4)] sn ne show ?thesis by auto
  qed
qed

lemma loop_returns:
  assumes "\<forall>dev \<in> set devs. d dev \<noteq> None \<and> relay_answers e dev ''On'' \<and> relay_answers e dev ''Off''"
    and "fan_light_loop e now d devs s final = (s', r)"
  shows "\<exists>f. r = Inr f"
  using assms
proof (induction devs arbitrary: s final)
  case Nil
  then show ?case by auto
next
  case (Cons dev devs)
  from Cons.prems(1) have rest: "\<forall>dev \<in> set devs. d dev \<noteq> None \<and> relay_answers e dev ''On'' \<and> relay_answers e dev ''Off''"
    by simp
  from Cons.prems(1) have ans: "relay_answers e dev (power_of v)" for v
    by (simp add: power_of_def)
  from Cons.prems(2) show ?case
  proof (cases rule: loop_Cons_cases)
    case (locked ls ex)
    from Cons.IH[OF rest locked(4)] show ?thesis .
  next
    case nokey
    with Cons.prems(1) show ?thesis by simp
  next
    case (raised v err)
    with tas_cmd_answers[OF ans, of v s] show ?thesis by simp
  next
    case (stepped v j s1)
    from Cons.IH[OF rest stepped(5)] show ?thesis .
  qed
qed

text \<open>A device that the loop does not visit, and one that it visits without an active lock.\<close>

lemma loop_other_dev:
  assumes "fan_light_loop e now d devs s final = (s', r)" and "x \<notin> set devs"
  shows "manual_lock s' x = manual_lock s x \<and> to_dev x (sent s') = to_dev x (sent s) \<and>
         (\<forall>f. r = Inr f \<longrightarrow> f x = final x)"
  using assms
proof (induction devs arbitrary: s final)
  case Nil
  then show ?case by auto
next
  case (Cons dev devs)
  then have ne: "x \<noteq> dev" and notin: "x \<notin> set devs" by auto
  from Cons.prems(1) show ?case
  proof (cases rule: loop_Cons_cases)
    case (locked ls ex)
    from Cons.IH[OF locked(4) notin] ne show ?thesis by simp
  next
    case nokey
    then show ?thesis by simp
  next
    case (raised v err)
    with ne show ?thesis using tas_cmd_frame[OF raised(3), of x] by simp
  next
    case (stepped v j s1)
    from Cons.IH[OF stepped(5) notin] ne stepped(4) show ?thesis
      by (simp add: without_lock_def to_dev_def)
  qed
qed

lemma loop_unlocked_dev:
  assumes "fan_light_loop e now d devs s final = (s', Inr f)"
    and "\<not> lock_active now s x" "x \<in> set devs" "distinct devs"
  shows "\<exists>v. d x = Some v \<and> f x = final x \<and>
           to_dev x (sent s') = to_dev x (sent s) @ [(x, power_of v)] \<and>
           manual_lock s' x = (if lock_expired now s x then None else manual_lock s x)"
  using assms
proof (induction devs arbitrary: s final)
  case Nil
  then show ?case by simp
next
  case (Cons dev devs)
  from Cons.prems(1) show ?case
  proof (cases rule: loop_Cons_cases)
    case (locked ls ex)
    with Cons.prems(2) have ne: "x \<noteq> dev" by (auto simp: lock_active_def)
    with Cons.prems have "x \<in> set devs" "distinct devs" by auto
    from Cons.IH[OF locked(4) Cons.prems(2) this] ne show ?thesis by simp
  next
    case nokey
    then show ?thesis by simp
  next
    case (raised v err)
    then show ?thesis by simp
  next
    case (stepped v j s1)
    define s2 where "s2 = (if lock_expired now s dev then without_lock dev s1 else s1)"
    from stepped(5) have run2: "fan_light_loop e now d devs s2 final = (s', Inr f)"
      by (simp add: s2_def)
    show ?thesis
    proof (cases "x = dev")
      case True
      with Cons.prems(4) have "x \<notin> set devs" by simp
      from loop_other_dev[OF run2 this] True stepped(2,4) show ?thesis
        by (auto simp: s2_def without_lock_def to_dev_def lock_expired_def split: option.splits)
    next
      case False
      with Cons.prems have in_rest: "x \<in> set devs" "distinct devs" by auto
      from False stepped(4) have same: "manual_lock s2 x = manual_lock s x" "to_dev x (sent s2) = to_dev x (sent s)"
        by (simp_all add: s2_def without_lock_def to_dev_def)
      from same(1) Cons.prems(2) have na: "\<not> lock_active now s2 x"
        by (simp add: lock_active_def)
      from same(1) have ex: "lock_expired now s2 x = lock_expired now s x"
        by (simp add: lock_expired_def)
      from Cons.IH[OF run2 na in_rest] same ex show ?thesis by auto
    qed
  qed
qed

text \<open>A lock that is not active has no influence on the loop beyond its own entry.\<close>

lemma loop_without_lock:
  assumes "fan_light_loop e now d devs s final = (s', r)" and "\<not> lock_active now s x"
  shows "fan_light_loop e now d devs (without_lock x s) final = (without_lock x s', r)"
  using assms
proof (induction devs arbitrary: s final)
  case Nil
  then show ?case by simp
next
  case (Cons dev devs)
  have wl: "manual_lock (without_lock x s) y = (if y = x then None else manual_lock s y)" for y s
    by (simp add: without_lock_def)
  from Cons.prems(1) show ?case
  proof (cases rule: loop_Cons_cases)
    case (locked ls ex)
    with Cons.prems(2) have ne: "dev \<noteq> x" by (auto simp: lock_active_def)
    with locked(1) have lk: "manual_lock (without_lock x s) dev = Some (ls, ex)" by (simp add: wl)
    from Cons.IH[OF locked(4) Cons.prems(2)] show ?thesis
      by (simp only: loop_locked[OF lk locked(2,3)])
  next
    case nokey
    from nokey(1) have "\<not> lock_active now (without_lock x s) dev"
      by (simp add: lock_active_def wl)
    from loop_unlocked[OF this] nokey show ?thesis by simp
  next
    case (raised v err)
    from raised(1) have "\<not> lock_active now (without_lock x s) dev"
      by (simp add: lock_active_def wl)
    from loop_unlocked[OF this] raised tas_cmd_without_lock[OF raised(3), of x] show ?thesis by simp
  next
    case (stepped v j s1)
    define s2 where "s2 = (if lock_expired now s dev then without_lock dev s1 else s1)"
    define t2 where "t2 = (if lock_expired now (without_lock x s) dev
                           then without_lock dev (without_lock x s1) else without_lock x s1)"
    from stepped(5) have run2: "fan_light_loop e now d devs s2 final = (s', r)"
      by (simp add: s2_def)
    from stepped(1) have na: "\<not> lock_active now (without_lock x s) dev"
      by (simp add: lock_active_def wl)
    from stepped(4) Cons.prems(2) have "\<not> lock_active now s2 x"
      by (simp add: s2_def lock_active_def without_lock_def)
    from Cons.IH[OF run2 this]
    have ih: "fan_light_loop e now d devs (without_lock x s2) final = (without_lock x s', r)" .
    have "t2 = without_lock x s2"
      unfolding t2_def s2_def
      by (cases "dev = x") (auto simp: lock_expired_def without_lock_def fun_upd_twist split: option.splits)
    with ih have "fan_light_loop e now d devs t2 final = (without_lock x s', r)" by simp
    with loop_unlocked[OF na, of e d devs final] stepped(2) tas_cmd_without_lock[OF stepped(3), of x]
    show ?thesis by (simp add: t2_def)
  qed
qed

section \<open>The prompt and the tick\<close>

text \<open>
  The system template has 796 bytes. Its example of the expected output stands between
  single braces, so it is a replacement field, whose name is the text from the line break
  after the brace to the first colon; the only keyword given is \<^verbatim>\<open>readings_json\<close>.
  Every call of \<^verbatim>\<open>decide_actuators\<close> therefore ends in \<^verbatim>\<open>KeyError\<close> with the state
  untouched.
\<close>

lemma system_prompt_length: "length SYSTEM_PROMPT = 796"
  by code_simp

lemma system_prompt_raises: "scan [''readings_json''] Text SYSTEM_PROMPT = Some (Raise KeyError)"
  by code_simp

lemma human_prompt_formats: "scan [''readings_json''] Text HUMAN_PROMPT = None"
  by code_simp

lemma format_messages_raises: "format_messages prompt [''readings_json''] = Some (Raise KeyError)"
  by (simp add: prompt_def system_prompt_raises)

lemma decide_actuators_raises: "decide_actuators e now orc s = (s, Inl KeyError)"
  by (simp add: decide_actuators_def format_messages_raises)

section \<open>The code after the prompt\<close>

lemma decide_accepted:
  assumes "{''fan'', ''light'', ''pump''} \<subseteq> fst ` set kvs"
  shows "decide_after_prompt e now (Loaded (JObj kvs)) s =
         (case fan_light_loop e now (dict_of kvs) [''fan'', ''light''] s (dict_of kvs) of
            (s1, Inl err) \<Rightarrow> (s1, Inl err)
          | (s1, Inr final) \<Rightarrow> pump_step (dict_of kvs) s1 final)"
proof -
  from assms have "all_in [''fan'', ''light'', ''pump''] (JObj kvs) = Inr True"
    unfolding all_in_obj by simp
  then show ?thesis
    by (simp add: decide_after_prompt_def Let_def del: all_in.simps)
qed

lemma decide_discarded:
  assumes "\<not> (\<exists>kvs. orc = Loaded (JObj kvs) \<and> {''fan'', ''light'', ''pump''} \<subseteq> fst ` set kvs)"
  shows "fst (decide_after_prompt e now orc s) = s"
proof (cases orc)
  case InvokeRaises
  then show ?thesis by (simp add: decide_after_prompt_def)
next
  case (LoadsRaises err)
  then show ?thesis by (simp add: decide_after_prompt_def)
next
  case (Loaded j)
  show ?thesis
  proof (cases j)
    case (JObj kvs)
    with assms Loaded have "all_in [''fan'', ''light'', ''pump''] j = Inr False"
      unfolding JObj all_in_obj by simp
    with Loaded show ?thesis by (simp add: decide_after_prompt_def del: all_in.simps)
  qed (simp_all add: Loaded decide_after_prompt_def del: all_in.simps split: sum.splits bool.splits)
qed

lemma pump_step_result:
  assumes "pump_step d s1 final = (s', r)" and "d ''pump'' = Some p"
  shows "\<exists>final1. r = Inr final1 \<and> last_decision s' = last_decision s1 ++ final1 \<and>
           manual_lock s' = manual_lock s1 \<and> sent s' = sent s1 \<and>
           (\<forall>x. x \<noteq> ''pump'' \<longrightarrow> final1 x = final x) \<and>
           (if p = JStr ''on'' \<and> last_decision s1 ''pump'' \<noteq> Some (JStr ''on'')
            then threads s' = threads s1 @ [RunPump PUMP_DURATION] \<and> final1 ''pump'' = Some (JStr ''on'')
            else threads s' = threads s1 \<and>
                 final1 ''pump'' = (if p = JStr ''off'' then Some (JStr ''off'') else final ''pump''))"
proof (cases "p = JStr ''on'' \<and> last_decision s1 ''pump'' \<noteq> Some (JStr ''on'')")
  case True
  with assms show ?thesis by (auto simp: pump_step_def)
next
  case False
  with assms show ?thesis by (cases "p = JStr ''off''") (auto simp: pump_step_def)
qed

lemma decide_cases:
  assumes "decide_after_prompt e now (Loaded (JObj kvs)) s = (s', r)"
    and "{''fan'', ''light'', ''pump''} \<subseteq> fst ` set kvs"
  obtains
    (raised) err where "fan_light_loop e now (dict_of kvs) [''fan'', ''light''] s (dict_of kvs) = (s', Inl err)"
      "r = Inl err"
  | (returned) s1 final p where
      "fan_light_loop e now (dict_of kvs) [''fan'', ''light''] s (dict_of kvs) = (s1, Inr final)"
      "dict_of kvs ''pump'' = Some p"
      "pump_step (dict_of kvs) s1 final = (s', r)"
proof -
  obtain s1 r1 where loop: "fan_light_loop e now (dict_of kvs) [''fan'', ''light''] s (dict_of kvs) = (s1, r1)"
    by (cases "fan_light_loop e now (dict_of kvs) [''fan'', ''light''] s (dict_of kvs)")
  from assms(2) have "''pump'' \<in> dom (dict_of kvs)" by (simp add: dom_dict_of)
  then obtain p where p: "dict_of kvs ''pump'' = Some p" by blast
  show ?thesis
  proof (cases r1)
    case (Inl err)
    with assms loop have "s' = s1" "r = Inl err" by (simp_all add: decide_accepted)
    with loop Inl show ?thesis by (auto intro: raised)
  next
    case (Inr final)
    with assms loop have "pump_step (dict_of kvs) s1 final = (s', r)" by (simp add: decide_accepted)
    with loop Inr p show ?thesis by (auto intro: returned)
  qed
qed

lemma decide_returns:
  assumes "decide_after_prompt e now (Loaded (JObj kvs)) s = (s', r)"
    and "{''fan'', ''light'', ''pump''} \<subseteq> fst ` set kvs" and "relays_answer e"
  shows "\<exists>final. r = Inr final"
  using assms(1,2)
proof (cases rule: decide_cases)
  case (raised err)
  have "\<forall>dev \<in> set [''fan'', ''light'']. dict_of kvs dev \<noteq> None \<and> relay_answers e dev ''On'' \<and> relay_answers e dev ''Off''"
    using assms(2,3) dom_dict_of[of kvs] by (auto simp: relays_answer_def)
  from loop_returns[OF this raised(1)] show ?thesis by simp
next
  case (returned s1 final p)
  from pump_step_result[OF returned(3,2)] show ?thesis by blast
qed

lemma pump_step_without_lock:
  assumes "pump_step d s1 final = (s', r)"
  shows "pump_step d (without_lock x s1) final = (without_lock x s', r)"
  using assms by (auto simp: pump_step_def without_lock_def split: option.splits if_splits)

lemma decide_without_lock:
  assumes "decide_after_prompt e now (Loaded (JObj kvs)) s = (s', r)"
    and "{''fan'', ''light'', ''pump''} \<subseteq> fst ` set kvs" and "\<not> lock_active now s x"
  shows "decide_after_prompt e now (Loaded (JObj kvs)) (without_lock x s) = (without_lock x s', r)"
  using assms(1,2)
proof (cases rule: decide_cases)
  case (raised err)
  from loop_without_lock[OF raised(1) assms(3)] raised(2) show ?thesis
    by (simp add: decide_accepted[OF assms(2)])
next
  case (returned s1 final p)
  from loop_without_lock[OF returned(1) assms(3)] pump_step_without_lock[OF returned(3)]
  show ?thesis by (simp add: decide_accepted[OF assms(2)])
qed

lemma decide_threads:
  assumes "decide_after_prompt e now (Loaded (JObj kvs)) s = (s', r)"
    and "{''fan'', ''light'', ''pump''} \<subseteq> fst ` set kvs"
  shows "threads s' =
         (if dict_of kvs ''pump'' = Some (JStr ''on'') \<and> last_decision s ''pump'' \<noteq> Some (JStr ''on'')
             \<and> (\<exists>final. r = Inr final)
          then threads s @ [RunPump PUMP_DURATION] else threads s)"
  using assms
proof (cases rule: decide_cases)
  case (raised err)
  with loop_frame[OF raised(1)] show ?thesis by simp
next
  case (returned s1 final p)
  from pump_step_result[OF returned(3,2)] loop_frame[OF returned(1)] returned(2)
  show ?thesis by (auto split: if_splits)
qed

text \<open>
  An active override in the code after the prompt: no command to the device, the lock
  stays, and a run that reaches its end carries the locked state as the effective decision
  and in the store.
\<close>

lemma after_prompt_override:
  assumes "dev \<in> {''fan'', ''light''}"
    and "manual_lock s dev = Some (ls, ex)" and "ls \<noteq> []" and "before now ex"
  shows "case decide_after_prompt e now orc s of (s', r) \<Rightarrow>
           to_dev dev (sent s') = to_dev dev (sent s) \<and>
           manual_lock s' dev = Some (ls, ex) \<and>
           (last_decision s dev = Some (JStr ls) \<longrightarrow> last_decision s' dev = Some (JStr ls)) \<and>
           (\<forall>kvs. orc = Loaded (JObj kvs) \<and> {''fan'', ''light'', ''pump''} \<subseteq> fst ` set kvs \<longrightarrow>
              (\<forall>final. r = Inr final \<longrightarrow>
                 final dev = Some (JStr ls) \<and> last_decision s' dev = Some (JStr ls)) \<and>
              (relays_answer e \<longrightarrow> (\<exists>final. r = Inr final)))"
proof -
  obtain s' r where run: "decide_after_prompt e now orc s = (s', r)"
    by (cases "decide_after_prompt e now orc s")
  have ne: "dev \<noteq> ''pump''" using assms(1) by auto
  have "to_dev dev (sent s') = to_dev dev (sent s) \<and>
        manual_lock s' dev = Some (ls, ex) \<and>
        (last_decision s dev = Some (JStr ls) \<longrightarrow> last_decision s' dev = Some (JStr ls)) \<and>
        (\<forall>kvs. orc = Loaded (JObj kvs) \<and> {''fan'', ''light'', ''pump''} \<subseteq> fst ` set kvs \<longrightarrow>
              (\<forall>final. r = Inr final \<longrightarrow>
                 final dev = Some (JStr ls) \<and> last_decision s' dev = Some (JStr ls)) \<and>
              (relays_answer e \<longrightarrow> (\<exists>final. r = Inr final)))"
  proof (cases "\<exists>kvs. orc = Loaded (JObj kvs) \<and> {''fan'', ''light'', ''pump''} \<subseteq> fst ` set kvs")
    case False
    from decide_discarded[OF False, of e now s] run have "s' = s" by simp
    with False assms(2) show ?thesis by auto
  next
    case True
    then obtain kvs where resp: "orc = Loaded (JObj kvs)"
      and keys: "{''fan'', ''light'', ''pump''} \<subseteq> fst ` set kvs" by blast
    from run resp have run': "decide_after_prompt e now (Loaded (JObj kvs)) s = (s', r)" by simp
    from run' keys have body: "to_dev dev (sent s') = to_dev dev (sent s) \<and>
        manual_lock s' dev = Some (ls, ex) \<and>
        (last_decision s dev = Some (JStr ls) \<longrightarrow> last_decision s' dev = Some (JStr ls)) \<and>
        (\<forall>final. r = Inr final \<longrightarrow> final dev = Some (JStr ls) \<and> last_decision s' dev = Some (JStr ls))"
    proof (cases rule: decide_cases)
      case (raised err)
      from loop_locked_dev[OF raised(1) assms(2-4)] loop_frame[OF raised(1)] raised(2)
      show ?thesis by simp
    next
      case (returned s1 final p)
      from loop_locked_dev[OF returned(1) assms(2-4)] assms(1)
      have l: "manual_lock s1 dev = Some (ls, ex)" "to_dev dev (sent s1) = to_dev dev (sent s)"
        "final dev = Some (JStr ls)" by auto
      from pump_step_result[OF returned(3,2)] obtain final1 where
        f: "r = Inr final1" "last_decision s' = last_decision s1 ++ final1"
           "manual_lock s' = manual_lock s1" "sent s' = sent s1" "final1 dev = final dev"
        using ne by blast
      with l show ?thesis by (simp add: map_add_Some_iff)
    qed
    from decide_returns[OF run' keys] have "relays_answer e \<longrightarrow> (\<exists>final. r = Inr final)" by blast
    with body resp show ?thesis by auto
  qed
  with run show ?thesis by simp
qed

text \<open>
  An expired override in the code after the prompt: the run is the one on the state
  without the entry, and a run that reaches its end has removed the entry and has sent and
  stored the oracle's decision.
\<close>

lemma after_prompt_expired:
  assumes "dev \<in> {''fan'', ''light''}"
    and "manual_lock s dev = Some (ls, ex)" and "\<not> before now ex"
    and "{''fan'', ''light'', ''pump''} \<subseteq> fst ` set kvs"
  shows "case decide_after_prompt e now (Loaded (JObj kvs)) s of (s', r) \<Rightarrow>
           decide_after_prompt e now (Loaded (JObj kvs)) (without_lock dev s) = (without_lock dev s', r) \<and>
           (\<forall>final. r = Inr final \<longrightarrow>
              manual_lock s' dev = None \<and>
              (\<exists>v. dict_of kvs dev = Some v \<and>
                   to_dev dev (sent s') = to_dev dev (sent s) @ [(dev, power_of v)] \<and>
                   final dev = Some v \<and> last_decision s' dev = Some v)) \<and>
           (relays_answer e \<longrightarrow> (\<exists>final. r = Inr final))"
proof -
  obtain s' r where run: "decide_after_prompt e now (Loaded (JObj kvs)) s = (s', r)"
    by (cases "decide_after_prompt e now (Loaded (JObj kvs)) s")
  have ne: "dev \<noteq> ''pump''" using assms(1) by auto
  from assms(2,3) have na: "\<not> lock_active now s dev" and ex: "lock_expired now s dev"
    by (simp_all add: lock_active_def lock_expired_def)
  have "manual_lock s' dev = None \<and>
        (\<exists>v. dict_of kvs dev = Some v \<and>
             to_dev dev (sent s') = to_dev dev (sent s) @ [(dev, power_of v)] \<and>
             final dev = Some v \<and> last_decision s' dev = Some v)" if "r = Inr final" for final
    using run assms(4)
  proof (cases rule: decide_cases)
    case (raised err)
    with that show ?thesis by simp
  next
    case (returned s1 final0 p)
    from assms(1) have "dev \<in> set [''fan'', ''light'']" "distinct [''fan'', ''light'']" by auto
    from loop_unlocked_dev[OF returned(1) na this] ex obtain v where
      v: "dict_of kvs dev = Some v" "final0 dev = dict_of kvs dev"
         "to_dev dev (sent s1) = to_dev dev (sent s) @ [(dev, power_of v)]"
         "manual_lock s1 dev = None" by auto
    from pump_step_result[OF returned(3,2)] obtain final1 where
      f: "r = Inr final1" "last_decision s' = last_decision s1 ++ final1" "sent s' = sent s1"
         "manual_lock s' = manual_lock s1" "final1 dev = final0 dev"
      using ne by blast
    with v that show ?thesis by (simp add: map_add_Some_iff)
  qed
  moreover from decide_returns[OF run assms(4)] have "relays_answer e \<longrightarrow> (\<exists>final. r = Inr final)"
    by blast
  moreover note decide_without_lock[OF run assms(4) na]
  ultimately show ?thesis using run by simp
qed

section \<open>The manual handlers and the pump threads\<close>

lemma manual_run_resets:
  "last_decision (fst (manual_run drv seconds s)) ''pump'' = Some (JStr ''off'')"
  by (simp add: manual_run_def manual_run_end_def manual_run_begin_def set_pump_def split: sum.splits)

lemma run_pump_outcome:
  "last_decision (fst (run_pump drv duration s)) ''pump'' =
     Some (JStr (if blink_led drv duration = Inr () then ''off'' else ''on''))"
  by (auto simp: run_pump_def run_pump_end_def run_pump_begin_def set_pump_def split: sum.splits)

lemma capitalize_actions:
  "capitalize ''on'' = ''On''" "capitalize ''off'' = ''Off''" "capitalize ''toggle'' = ''Toggle''"
  by (simp_all add: upper_char_def lower_char_def upper_letters_def lower_letters_def)

lemma toggle_device_records:
  assumes "dev \<in> {''fan'', ''light''}" and "lower action \<in> {''on'', ''off'', ''toggle''}"
    and "toggle_device e now dev action payload s = (s', r)"
  shows "(\<forall>result. r = Inr result \<longrightarrow>
            last_decision s' dev = Some (JStr (if lower action = ''on'' then ''on'' else ''off'')) \<and>
            (\<exists>ex. manual_lock s' dev = Some (if lower action = ''on'' then ''on'' else ''off'', ex))) \<and>
         (relay_answers e dev (capitalize (lower action)) \<and>
          (\<exists>d. duration_of e payload 0 0 = Inr d \<and> \<bar>d * 60\<bar> < 2 ^ 1024 - 2 ^ 970)
            \<longrightarrow> (\<exists>result. r = Inr result))"
proof -
  define pc where "pc = capitalize (lower action)"
  define st where "st = (if lower action = ''on'' then ''on'' else ''off'')"
  have on: "(if pc = ''On'' then ''on'' else ''off'') = st"
    using assms(2) by (auto simp: pc_def st_def capitalize_actions simp del: capitalize.simps)
  have body: "toggle_device e now dev action payload s =
    (case duration_of e payload 0 0 of
       Inl err \<Rightarrow> (s, Inl err)
     | Inr d \<Rightarrow>
         (case tas_cmd e dev pc s of
            (s1, Inl err) \<Rightarrow> (s1, Inl err)
          | (s1, Inr result) \<Rightarrow>
              (case (if d = 0 then Inr Never
                     else (case float_of_int (d * 60) of
                             Inl err \<Rightarrow> Inl err
                           | Inr x \<Rightarrow> Inr (At (now + x)))) of
                 Inl err \<Rightarrow> (s1\<lparr>last_decision := (last_decision s1)(dev \<mapsto> JStr st)\<rparr>, Inl err)
               | Inr expiry \<Rightarrow>
                   (s1\<lparr>last_decision := (last_decision s1)(dev \<mapsto> JStr st),
                       manual_lock := (manual_lock s1)(dev \<mapsto> (st, expiry)),
                       threads := (if d > 0
                                   then threads s1 @ [AutoRelease dev (if st = ''on'' then ''off'' else ''on'') d]
                                   else threads s1)\<rparr>,
                    Inr result))))"
    using assms(1,2) unfolding toggle_device_def Let_def pc_def[symmetric] on
    by (auto split: sum.splits prod.splits)
  obtain s1 r1 where t: "tas_cmd e dev pc s = (s1, r1)"
    by (cases "tas_cmd e dev pc s")
  show ?thesis
  proof (cases "duration_of e payload 0 0")
    case (Inl err)
    with assms(3) body show ?thesis by auto
  next
    case (Inr d)
    show ?thesis
    proof (cases r1)
      case (Inl err)
      with t Inr assms(3) body tas_cmd_answers[of e dev pc s] show ?thesis
        by (auto simp: pc_def)
    next
      case res: (Inr j)
      with t Inr assms(3) body show ?thesis
        by (auto simp: float_of_int_def st_def split: if_splits)
    qed
  qed
qed

lemma auto_release_fires:
  assumes "py_sleep (minutes * 60) = Inr ()"
  shows "case auto_release e dev desired minutes s of (s', r) \<Rightarrow>
     (r = Inr () \<longrightarrow>
        sent s' = sent s @ [(dev, capitalize desired)] \<and>
        manual_lock s' = (manual_lock s)(dev := None) \<and>
        last_decision s' = (last_decision s)(dev \<mapsto> JStr desired) \<and>
        threads s' = threads s) \<and>
     (relay_answers e dev (capitalize desired) \<longrightarrow> r = Inr ())"
proof -
  obtain s1 r1 where t: "tas_cmd e dev (capitalize desired) s = (s1, r1)"
    by (cases "tas_cmd e dev (capitalize desired) s")
  show ?thesis
  proof (cases r1)
    case (Inl err)
    with t assms tas_cmd_answers[of e dev "capitalize desired" s] show ?thesis
      by (auto simp: auto_release_def)
  next
    case (Inr j)
    with t assms tas_cmd_Inr[of e dev "capitalize desired" s s1 j] show ?thesis
      by (simp add: auto_release_def)
  qed
qed

section \<open>Routing\<close>

text \<open>
  A request \<^verbatim>\<open>POST /actuators/pump/on\<close> matches the route with the two parameters, which
  is declared first, and is handled by \<^verbatim>\<open>toggle_device\<close> with the device pump; there
  the relay gateway has no address for the pump, so the request ends in an exception
  (that of the duration, if it does not convert, else \<^verbatim>\<open>ValueError\<close>) and changes
  nothing.
\<close>

lemma post_pump_on:
  "post e now [''actuators'', ''pump'', ''on''] payload s =
   toggle_device e now ''pump'' ''on'' payload s"
  by (simp add: post_def post_routes_def path_params_def)

lemma tas_cmd_pump: "tas_cmd e ''pump'' power_cmd s = (s, Inl ValueError)"
  by (simp add: tas_cmd_def IP_def)

lemma toggle_device_pump:
  "toggle_device e now ''pump'' ''on'' payload s =
   (s, Inl (case duration_of e payload 0 0 of Inl err \<Rightarrow> err | Inr d \<Rightarrow> ValueError))"
proof -
  have "lower ''on'' = ''on''"
    by (simp add: lower_def lower_char_def upper_letters_def lower_letters_def)
  then show ?thesis
    by (simp add: toggle_device_def tas_cmd_pump split: sum.splits del: capitalize.simps)
qed

lemma post_pump_on_raises:
  "post e now [''actuators'', ''pump'', ''on''] payload s =
   (s, Inl (case duration_of e payload 0 0 of Inl err \<Rightarrow> err | Inr d \<Rightarrow> ValueError))"
  by (simp only: post_pump_on toggle_device_pump)

section \<open>The claims\<close>

subsection \<open>C1: an active manual override and the tick\<close>

text \<open>
  Claim C1 at the failing input. The fan was switched on by a manual command for five
  minutes at time 0, so its lock is active at time 120. The tick at that time raises
  \<^verbatim>\<open>KeyError\<close> while the prompt is formatted: it produces no effective decision, so
  none that carries the locked state. (The code after the prompt does what the claim says,
  lemma \<open>after_prompt_override\<close>.)
\<close>

theorem override_tick_raises:
  "manual_lock fan_locked ''fan'' = Some (''on'', At 300) \<and> before 120 (At 300) \<and>
   decide_actuators test_env 120 (Loaded (tick ''off'' ''on'' ''off'')) fan_locked =
     (fan_locked, Inl KeyError)"
  by (simp add: decide_actuators_raises model_defs)

subsection \<open>C2: a release task fires without checking whose override it removes\<close>

text \<open>
  Claim C2 at the failing input. Override A (fan on for five minutes, at time 0) starts a
  release thread for the opposite state; at time 60 a second command B (fan on, no
  duration) replaces the lock by one that never expires. When A's thread wakes up and runs
  on that state, it sends \<^verbatim>\<open>Off\<close> to the fan, removes B's lock and stores off.
\<close>

theorem stale_release_clobbers:
  "manual_lock fan_locked ''fan'' = Some (''on'', At 300) \<and>
   threads fan_locked = [AutoRelease ''fan'' ''off'' 5] \<and>
   manual_lock superseded ''fan'' = Some (''on'', Never) \<and>
   last_decision superseded ''fan'' = Some (JStr ''on'') \<and>
   snd (run_thread test_env Completes (hd (threads fan_locked)) superseded) = Inr () \<and>
   sent (fst (run_thread test_env Completes (hd (threads fan_locked)) superseded)) =
     sent superseded @ [(''fan'', ''Off'')] \<and>
   manual_lock (fst (run_thread test_env Completes (hd (threads fan_locked)) superseded)) ''fan'' =
     None \<and>
   last_decision (fst (run_thread test_env Completes (hd (threads fan_locked)) superseded)) ''fan'' =
     Some (JStr ''off'')"
  by (simp add: model_defs)

subsection \<open>C3: a malformed or incomplete answer changes nothing\<close>

text \<open>
  Claim C3. When loading the oracle's answer raises, or the answer is an object that
  lacks one of the keys fan, light and pump, the state after the tick is the state before
  it: no stored device state, no lock, no command sent, no thread started. This holds of
  \<^verbatim>\<open>decide_actuators\<close> and of its code after the prompt; that code returns the stored
  decisions when the answer is not JSON or is an object that lacks a key.
\<close>

theorem fail_safe_hold:
  assumes "(\<exists>err. orc = LoadsRaises err) \<or>
           (\<exists>kvs k. orc = Loaded (JObj kvs) \<and> k \<in> {''fan'', ''light'', ''pump''} \<and> k \<notin> fst ` set kvs)"
  shows "fst (decide_actuators e now orc s) = s \<and>
         fst (decide_after_prompt e now orc s) = s \<and>
         (orc = LoadsRaises JSONDecodeError \<or> (\<exists>kvs. orc = Loaded (JObj kvs)) \<longrightarrow>
            snd (decide_after_prompt e now orc s) = Inr (last_decision s))"
proof -
  from assms consider (raises) err where "orc = LoadsRaises err"
    | (missing) kvs k where "orc = Loaded (JObj kvs)" "k \<in> {''fan'', ''light'', ''pump''}"
        "k \<notin> fst ` set kvs"
    by blast
  then have "fst (decide_after_prompt e now orc s) = s \<and>
         (orc = LoadsRaises JSONDecodeError \<or> (\<exists>kvs. orc = Loaded (JObj kvs)) \<longrightarrow>
            snd (decide_after_prompt e now orc s) = Inr (last_decision s))"
  proof cases
    case raises
    then show ?thesis by (simp add: decide_after_prompt_def)
  next
    case missing
    then have "all_in [''fan'', ''light'', ''pump''] (JObj kvs) = Inr False"
      unfolding all_in_obj by auto
    with missing(1) show ?thesis by (simp add: decide_after_prompt_def del: all_in.simps)
  qed
  then show ?thesis by (simp add: decide_actuators_raises)
qed

theorem fail_safe_hold_witness:
  "''pump'' \<notin> fst ` set [(''fan'', JStr ''on''), (''light'', JStr ''on'')] \<and>
   fst (decide_actuators test_env 120 (Loaded (JObj [(''fan'', JStr ''on''), (''light'', JStr ''on'')]))
          fan_locked) = fan_locked \<and>
   decide_after_prompt test_env 120 (Loaded (JObj [(''fan'', JStr ''on''), (''light'', JStr ''on'')]))
     fan_locked = (fan_locked, Inr (last_decision fan_locked)) \<and>
   decide_after_prompt test_env 120 (LoadsRaises JSONDecodeError) fan_locked =
     (fan_locked, Inr (last_decision fan_locked)) \<and>
   decide_after_prompt test_env 120 (LoadsRaises RecursionError) fan_locked =
     (fan_locked, Inl RecursionError) \<and>
   sent fan_locked = [(''fan'', ''On'')]"
  using fail_safe_hold[where orc="Loaded (JObj [(''fan'', JStr ''on''), (''light'', JStr ''on'')])"
      and e=test_env and now=120 and s=fan_locked]
    fail_safe_hold[where orc="LoadsRaises JSONDecodeError" and e=test_env and now=120 and s=fan_locked]
    fail_safe_hold[where orc="LoadsRaises RecursionError" and e=test_env and now=120 and s=fan_locked]
  by (simp add: decide_actuators_raises model_defs)

subsection \<open>C4: the code after the prompt sends its command unconditionally\<close>




subsection \<open>C5: only the automatic path looks at the stored pump state\<close>

text \<open>
  Claim C5 as stated fails. In a state in which a pump run is in progress (the pump is
  stored as on), the request \<^verbatim>\<open>POST /actuators/pump/on\<close> ends in \<^verbatim>\<open>ValueError\<close>, not
  in an answer with started false; and the handler \<^verbatim>\<open>water_pump\<close>, called in that
  state, starts a second thread and answers with status watering.
\<close>

theorem pump_exclusivity_counterexample:
  "last_decision pump_running ''pump'' = Some (JStr ''on'') \<and> threads pump_running = [RunPump 2] \<and>
   post test_env 1 [''actuators'', ''pump'', ''on''] None pump_running =
     (pump_running, Inl ValueError) \<and>
   threads (fst (water_pump test_env None pump_running)) = [RunPump 2, ManualRun 2] \<and>
   snd (water_pump test_env None pump_running) =
     Inr (JObj [(''status'', JStr ''watering''), (''duration'', JInt 2)])"
  by (simp add: post_pump_on_raises model_defs)

text \<open>
  Claim C5, amended. When the pump is stored as on, a request of the automatic path to
  start a pump run starts none: neither \<^verbatim>\<open>decide_actuators\<close> nor its code after the
  prompt starts a thread, whatever the oracle answered.
\<close>

theorem automatic_pump_guard:
  "last_decision s ''pump'' = Some (JStr ''on'') \<longrightarrow>
     threads (fst (decide_actuators e now orc s)) = threads s \<and>
     threads (fst (decide_after_prompt e now orc s)) = threads s"
proof -
  have "threads (fst (decide_after_prompt e now orc s)) = threads s"
    if on: "last_decision s ''pump'' = Some (JStr ''on'')"
  proof (cases "\<exists>kvs. orc = Loaded (JObj kvs) \<and> {''fan'', ''light'', ''pump''} \<subseteq> fst ` set kvs")
    case False
    from decide_discarded[OF False] show ?thesis by simp
  next
    case True
    then obtain kvs where resp: "orc = Loaded (JObj kvs)"
      and keys: "{''fan'', ''light'', ''pump''} \<subseteq> fst ` set kvs" by blast
    obtain s' r where run: "decide_after_prompt e now (Loaded (JObj kvs)) s = (s', r)"
      by (cases "decide_after_prompt e now (Loaded (JObj kvs)) s")
    from decide_threads[OF run keys] on resp run show ?thesis by simp
  qed
  then show ?thesis by (simp add: decide_actuators_raises)
qed

theorem automatic_pump_guard_witness:
  "last_decision pump_running ''pump'' = Some (JStr ''on'') \<and>
   threads (fst (decide_actuators test_env 1 (Loaded (tick ''off'' ''off'' ''on'')) pump_running)) =
     [RunPump 2] \<and>
   threads (fst (decide_after_prompt test_env 1 (Loaded (tick ''off'' ''off'' ''on'')) pump_running)) =
     [RunPump 2] \<and>
   snd (decide_after_prompt test_env 1 (Loaded (tick ''off'' ''off'' ''on'')) pump_running) =
     Inr (dict_of [(''fan'', JStr ''off''), (''light'', JStr ''off''), (''pump'', JStr ''on'')])"
  using automatic_pump_guard[where s=pump_running and e=test_env and now=1
      and orc="Loaded (tick ''off'' ''off'' ''on'')"]
  by (simp add: decide_actuators_raises model_defs)

subsection \<open>C6: an expired override and the tick\<close>

text \<open>
  Claim C6 at the failing input. The fan's lock expired at time 300 and its release has
  not fired. The tick at time 301 raises \<^verbatim>\<open>KeyError\<close> while the prompt is formatted:
  the oracle's decision for the fan is not applied and the expired entry stays. (The code
  after the prompt does what the claim says, lemma \<open>after_prompt_expired\<close>.)
\<close>

theorem expired_tick_raises:
  "manual_lock fan_locked ''fan'' = Some (''on'', At 300) \<and> \<not> before 301 (At 300) \<and>
   decide_actuators test_env 301 (Loaded (tick ''off'' ''off'' ''off'')) fan_locked =
     (fan_locked, Inl KeyError) \<and>
   last_decision fan_locked ''fan'' = Some (JStr ''on'')"
  by (simp add: decide_actuators_raises model_defs)

subsection \<open>C7: a failing driver in the automatic run\<close>

text \<open>
  Claim C7 at the failing input: an automatic pump run whose driver raises. The thread
  \<^verbatim>\<open>_run_pump\<close> ends with the exception and the pump stays stored as on, while the
  thread of the manual handler stores off after the same failure.
\<close>

theorem automatic_run_stuck_on:
  "run_pump Raises PUMP_DURATION initial_state = (set_pump ''on'' initial_state, Inl DriverError) \<and>
   last_decision (fst (run_pump Raises PUMP_DURATION initial_state)) ''pump'' = Some (JStr ''on'') \<and>
   last_decision (fst (manual_run Raises 2 initial_state)) ''pump'' = Some (JStr ''off'')"
  by (simp add: model_defs)

subsection \<open>C8: the code after the prompt writes a pump decision of off to the store\<close>




subsection \<open>C9: a toggle is recorded as off\<close>

text \<open>
  Claim C9. For a manual command on fan or light whose action is toggle in any spelling of
  upper and lower case, a call that returns has stored off for the device and has created
  a lock with the locked state off, whatever the relay replied and so whatever state the
  device is in. The call returns when the relay answers the command \<^verbatim>\<open>Toggle\<close> and
  the duration converts.
\<close>

theorem toggle_records_off:
  assumes "dev \<in> {''fan'', ''light''}" and "lower action = ''toggle''"
  shows "case toggle_device e now dev action payload s of (s', r) \<Rightarrow>
           (\<forall>result. r = Inr result \<longrightarrow>
              last_decision s' dev = Some (JStr ''off'') \<and>
              (\<exists>ex. manual_lock s' dev = Some (''off'', ex))) \<and>
           (relay_answers e dev ''Toggle'' \<and>
            (\<exists>d. duration_of e payload 0 0 = Inr d \<and> \<bar>d * 60\<bar> < 2 ^ 1024 - 2 ^ 970)
              \<longrightarrow> (\<exists>result. r = Inr result))"
proof -
  obtain s' r where run: "toggle_device e now dev action payload s = (s', r)"
    by (cases "toggle_device e now dev action payload s")
  from assms(2) have "lower action \<in> {''on'', ''off'', ''toggle''}" by simp
  from toggle_device_records[OF assms(1) this run] assms(2) run show ?thesis
    by (simp add: capitalize_actions del: capitalize.simps)
qed

theorem toggle_records_off_witness:
  "''fan'' \<in> {''fan'', ''light''} \<and> lower ''Toggle'' = ''toggle'' \<and>
   relay_answers test_env_on ''fan'' ''Toggle'' \<and>
   (case toggle_device test_env_on 0 ''fan'' ''Toggle'' None initial_state of (s', r) \<Rightarrow>
      r = Inr (JObj [(''POWER'', JStr ''ON'')]) \<and>
      last_decision s' ''fan'' = Some (JStr ''off'') \<and>
      manual_lock s' ''fan'' = Some (''off'', Never))"
  using toggle_records_off[where dev="''fan''" and action="''Toggle''" and e=test_env_on and now=0
      and payload=None and s=initial_state]
  by (simp add: model_defs)

subsection \<open>C10: the default durations of the manual pump handler\<close>

text \<open>
  Claim C10 as stated fails. At the public interface the request
  \<^verbatim>\<open>POST /actuators/pump/on\<close> with no body ends in \<^verbatim>\<open>ValueError\<close> and starts no pump
  run at all; and the handler \<^verbatim>\<open>water_pump\<close>, called with the empty object as body
  (a body that is present and lacks the key duration), runs the pump for 2 seconds, not 5.
\<close>

theorem pump_default_counterexample:
  "post test_env 0 [''actuators'', ''pump'', ''on''] None initial_state =
     (initial_state, Inl ValueError) \<and>
   threads (fst (water_pump test_env (Some []) initial_state)) = [ManualRun 2] \<and>
   snd (water_pump test_env (Some []) initial_state) =
     Inr (JObj [(''status'', JStr ''watering''), (''duration'', JInt 2)])"
  by (simp add: post_pump_on_raises model_defs)

text \<open>
  Claim C10, amended. The handler \<^verbatim>\<open>water_pump\<close>, called with no body or with the
  empty object as body, runs the pump for 2 seconds; called with a non-empty object
  without the key duration, it runs it for 5 seconds.
\<close>

theorem pump_default_durations:
  "(payload = None \<or> payload = Some [] \<longrightarrow>
      water_pump e payload s =
        (s\<lparr>threads := threads s @ [ManualRun 2]\<rparr>,
         Inr (JObj [(''status'', JStr ''watering''), (''duration'', JInt 2)]))) \<and>
   (\<forall>kvs. payload = Some kvs \<and> kvs \<noteq> [] \<and> ''duration'' \<notin> fst ` set kvs \<longrightarrow>
      water_pump e payload s =
        (s\<lparr>threads := threads s @ [ManualRun 5]\<rparr>,
         Inr (JObj [(''status'', JStr ''watering''), (''duration'', JInt 5)])))"
proof -
  have "dict_of kvs ''duration'' = None" if "''duration'' \<notin> fst ` set kvs" for kvs
    using that dom_dict_of[of kvs] by blast
  then show ?thesis
    by (auto simp: water_pump_def duration_of_def)
qed

theorem pump_default_durations_witness:
  "water_pump test_env None initial_state =
     (initial_state\<lparr>threads := [ManualRun 2]\<rparr>,
      Inr (JObj [(''status'', JStr ''watering''), (''duration'', JInt 2)])) \<and>
   ''duration'' \<notin> fst ` set [(''note'', JStr ''hello'')] \<and>
   water_pump test_env (Some [(''note'', JStr ''hello'')]) initial_state =
     (initial_state\<lparr>threads := [ManualRun 5]\<rparr>,
      Inr (JObj [(''status'', JStr ''watering''), (''duration'', JInt 5)]))"
  using pump_default_durations[where payload=None and e=test_env and s=initial_state]
    pump_default_durations[where payload="Some [(''note'', JStr ''hello'')]" and e=test_env and s=initial_state]
  by (simp add: model_defs)

end
